theory Spec2Isabelle
  imports Complex_Main "HOL-Library.Word"
begin

section \<open>Order records (Order.hpp)\<close>

text \<open>
  The C++ matching engine keeps prices and quantities in \<open>double\<close>. They are modelled
  as real numbers, which is the numerical semantics the design document fixes for the
  core; rounding and NaN are outside the model. Wall-clock timestamps of orders and
  trades are not modelled: no operation reads them.
\<close>

datatype OrderSide = BUY | SELL

datatype OrderType = MARKET | LIMIT

datatype OrderStatus = PENDING | PARTIAL | FILLED | CANCELLED

text \<open>\<open>struct Order\<close>; the field \<open>id\<close> is called \<open>oid\<close> and \<open>type\<close> is \<open>otype\<close>.\<close>

record Order =
  oid :: "64 word"
  userId :: string
  tradingPair :: string
  side :: OrderSide
  otype :: OrderType
  status :: OrderStatus
  price :: real
  quantity :: real
  filledQuantity :: real

text \<open>The constructor \<open>Order::Order\<close>: status PENDING, nothing filled.\<close>

definition newOrder ::
  "64 word \<Rightarrow> string \<Rightarrow> string \<Rightarrow> OrderSide \<Rightarrow> OrderType \<Rightarrow> real \<Rightarrow> real \<Rightarrow> Order" where
  "newOrder i u pr sd ty p q =
     \<lparr>oid = i, userId = u, tradingPair = pr, side = sd, otype = ty, status = PENDING,
      price = p, quantity = q, filledQuantity = 0\<rparr>"

definition getRemainingQuantity :: "Order \<Rightarrow> real" where
  "getRemainingQuantity ord = quantity ord - filledQuantity ord"

definition isFilled :: "Order \<Rightarrow> bool" where
  "isFilled ord \<longleftrightarrow> filledQuantity ord \<ge> quantity ord"

section \<open>Order book (OrderBook.hpp, OrderBook.cpp)\<close>

text \<open>\<open>struct Trade\<close>, without its timestamp.\<close>

record Trade =
  buyOrderId :: "64 word"
  sellOrderId :: "64 word"
  trade_price :: real
  trade_quantity :: real

text \<open>
  An \<open>OrderPtr\<close> is a \<open>std::shared_ptr<Order>\<close>: the price levels, the id directory and
  the matching loop all refer to the same object and see each other's updates. The model
  keeps the objects in a store indexed by addresses; \<open>brk\<close> is the next unused address.
  Each book has its own store: an order object is only ever handed to one book.

  A ladder is a \<open>std::map\<close> from price to a vector of order pointers. It is modelled as
  the list of its entries in iteration order (descending keys for bids, which use
  \<open>std::greater\<close>, ascending keys for asks).
\<close>

type_synonym ptr = nat

type_synonym ladder = "(real \<times> ptr list) list"

record OrderBook =
  heap :: "ptr \<Rightarrow> Order"
  brk :: ptr
  book_tradingPair :: string
  bids :: ladder
  asks :: ladder
  orders :: "64 word \<rightharpoonup> ptr"

datatype error = InvalidArgument | UnknownPair | WrongPair

text \<open>
  \<open>executeTrade\<close>: both orders take the quantity, then each status is recomputed. The two
  updates are sequential, as in the source, so that the model also says what happens when
  both pointers are the same object.
\<close>

definition applyFill :: "(ptr \<Rightarrow> Order) \<Rightarrow> ptr \<Rightarrow> real \<Rightarrow> (ptr \<Rightarrow> Order)" where
  "applyFill h p q = h(p := (h p)\<lparr>filledQuantity := filledQuantity (h p) + q\<rparr>)"

definition updateStatus :: "(ptr \<Rightarrow> Order) \<Rightarrow> ptr \<Rightarrow> (ptr \<Rightarrow> Order)" where
  "updateStatus h p =
     (if isFilled (h p) then h(p := (h p)\<lparr>status := FILLED\<rparr>)
      else if filledQuantity (h p) > 0 then h(p := (h p)\<lparr>status := PARTIAL\<rparr>)
      else h)"

definition executeTrade ::
  "(ptr \<Rightarrow> Order) \<Rightarrow> ptr \<Rightarrow> ptr \<Rightarrow> real \<Rightarrow> real \<Rightarrow> (ptr \<Rightarrow> Order) \<times> Trade" where
  "executeTrade h buyOrder sellOrder p q =
     (let h1 = applyFill h buyOrder q;
          h2 = applyFill h1 sellOrder q;
          h3 = updateStatus h2 buyOrder;
          h4 = updateStatus h3 sellOrder
      in (h4, \<lparr>buyOrderId = oid (h4 buyOrder), sellOrderId = oid (h4 sellOrder),
               trade_price = p, trade_quantity = q\<rparr>))"

text \<open>
  The body of the inner loop of \<open>matchOrder\<close> up to the \<open>push_back\<close> of the trade: the
  taker \<open>t\<close> meets the order \<open>m\<close> at the front of the level.
\<close>

definition fillFront :: "(ptr \<Rightarrow> Order) \<Rightarrow> ptr \<Rightarrow> ptr \<Rightarrow> (ptr \<Rightarrow> Order) \<times> Trade" where
  "fillFront h t m =
     (let matchPrice = price (h m);
          matchQuantity = min (getRemainingQuantity (h t)) (getRemainingQuantity (h m))
      in executeTrade h (if side (h t) = BUY then t else m)
                        (if side (h t) = SELL then t else m) matchPrice matchQuantity)"

lemma fillFront_progress:
  assumes "fillFront h t m = (h', tr)" and "\<not> isFilled (h t)" and "\<not> isFilled (h' m)"
  shows "isFilled (h' t)"
  using assms
  by (cases "side (h t)"; cases "t = m")
     (auto simp: fillFront_def executeTrade_def applyFill_def updateStatus_def isFilled_def
                 getRemainingQuantity_def Let_def min_def split: if_splits)

text \<open>
  The inner loop: while the taker is not filled and the level is not empty, trade with the
  front order and erase it from the level once it is filled. The result is the store, what
  is left of the level and the trades in the order they were pushed.
\<close>

function matchLevel ::
  "(ptr \<Rightarrow> Order) \<Rightarrow> ptr \<Rightarrow> ptr list \<Rightarrow> (ptr \<Rightarrow> Order) \<times> ptr list \<times> Trade list" where
  "matchLevel h t [] = (h, [], [])"
| "matchLevel h t (m # os) =
     (if isFilled (h t) then (h, m # os, [])
      else (case fillFront h t m of (h', tr) \<Rightarrow>
              (case matchLevel h' t (if isFilled (h' m) then os else m # os) of
                 (h'', os', trs) \<Rightarrow> (h'', os', tr # trs))))"
  by pat_completeness auto
termination
  by (relation "measure (\<lambda>(h, t, os). 2 * length os + (if isFilled (h t) then 0 else 1))")
     (auto dest: fillFront_progress [OF sym])

lemma matchLevel_done: "matchLevel h t os = (h', os', trs) \<Longrightarrow> os' = [] \<or> isFilled (h' t)"
proof (induction h t os arbitrary: h' os' trs rule: matchLevel.induct)
  case (1 h t)
  then show ?case by simp
next
  case (2 h t m os)
  show ?case
  proof (cases "isFilled (h t)")
    case True
    with "2.prems" show ?thesis by simp
  next
    case False
    obtain h1 tr where f: "fillFront h t m = (h1, tr)" by (cases "fillFront h t m")
    obtain h2 os2 trs2 where
      r: "matchLevel h1 t (if isFilled (h1 m) then os else m # os) = (h2, os2, trs2)"
      by (cases "matchLevel h1 t (if isFilled (h1 m) then os else m # os)")
    from "2.prems" False f r have "h' = h2" "os' = os2" by simp_all
    with "2.IH" [OF False f [symmetric] r] show ?thesis by simp
  qed
qed

text \<open>
  The outer loop over the opposite ladder. \<open>ok\<close> is the price test of the limit branch;
  the market branch is the same loop without the test. An emptied level is erased from the
  ladder; the trades of all levels are in one vector.
\<close>

function matchBook ::
  "(real \<Rightarrow> bool) \<Rightarrow> (ptr \<Rightarrow> Order) \<Rightarrow> ptr \<Rightarrow> ladder \<Rightarrow> (ptr \<Rightarrow> Order) \<times> ladder \<times> Trade list" where
  "matchBook ok h t [] = (h, [], [])"
| "matchBook ok h t ((p, os) # rest) =
     (if isFilled (h t) then (h, (p, os) # rest, [])
      else if \<not> ok p then (h, (p, os) # rest, [])
      else (case matchLevel h t os of (h', os', trs) \<Rightarrow>
              (case matchBook ok h' t (if os' = [] then rest else (p, os') # rest) of
                 (h'', L, trs') \<Rightarrow> (h'', L, trs @ trs'))))"
  by pat_completeness auto
termination
  by (relation "measure (\<lambda>(ok, h, t, L). 2 * length L + (if isFilled (h t) then 0 else 1))")
     (auto dest: matchLevel_done [OF sym])

definition matchOrder :: "OrderBook \<Rightarrow> ptr \<Rightarrow> OrderBook \<times> Trade list" where
  "matchOrder b t =
     (let ok = (if otype (heap b t) = MARKET then (\<lambda>p. True)
                else if side (heap b t) = BUY then (\<lambda>p. p \<le> price (heap b t))
                else (\<lambda>p. p \<ge> price (heap b t)))
      in if side (heap b t) = BUY
         then (case matchBook ok (heap b) t (asks b) of
                 (h, L, trs) \<Rightarrow> (b\<lparr>heap := h, asks := L\<rparr>, trs))
         else (case matchBook ok (heap b) t (bids b) of
                 (h, L, trs) \<Rightarrow> (b\<lparr>heap := h, bids := L\<rparr>, trs)))"

text \<open>
  \<open>ladder[price].push_back(order)\<close>: the level of that price, created in its place if
  absent. \<open>cmp\<close> is the comparator of the map.
\<close>

fun level_push_back :: "(real \<Rightarrow> real \<Rightarrow> bool) \<Rightarrow> real \<Rightarrow> ptr \<Rightarrow> ladder \<Rightarrow> ladder" where
  "level_push_back cmp p x [] = [(p, [x])]"
| "level_push_back cmp p x ((k, os) # rest) =
     (if p = k then (k, os @ [x]) # rest
      else if cmp p k then (p, [x]) # (k, os) # rest
      else (k, os) # level_push_back cmp p x rest)"

definition addOrder :: "OrderBook \<Rightarrow> Order \<Rightarrow> error + (OrderBook \<times> Trade list)" where
  "addOrder b ord =
     (if tradingPair ord \<noteq> book_tradingPair b then Inl WrongPair
      else
        let p = brk b;
            b0 = b\<lparr>heap := (heap b)(p := ord), brk := Suc p\<rparr>;
            b1 = b0\<lparr>orders := (orders b0)(oid ord \<mapsto> p)\<rparr>;
            (b2, trades) = matchOrder b1 p;
            b3 = (if \<not> isFilled (heap b2 p)
                  then (if side (heap b2 p) = BUY
                        then b2\<lparr>bids := level_push_back (>) (price (heap b2 p)) p (bids b2)\<rparr>
                        else b2\<lparr>asks := level_push_back (<) (price (heap b2 p)) p (asks b2)\<rparr>)
                  else b2)
        in Inr (b3, trades))"

text \<open>
  The ladder part of \<open>cancelOrder\<close>: \<open>find\<close> the level of the order's price, remove every
  occurrence of the pointer from it, erase the level if that empties it.
\<close>

fun level_remove :: "real \<Rightarrow> ptr \<Rightarrow> ladder \<Rightarrow> ladder" where
  "level_remove p x [] = []"
| "level_remove p x ((k, os) # rest) =
     (if k = p then (if removeAll x os = [] then rest else (k, removeAll x os) # rest)
      else (k, os) # level_remove p x rest)"

definition cancelOrder :: "OrderBook \<Rightarrow> 64 word \<Rightarrow> OrderBook \<times> bool" where
  "cancelOrder b i =
     (case orders b i of
        None \<Rightarrow> (b, False)
      | Some p \<Rightarrow>
          let ord = heap b p;
              b1 = (if side ord = BUY then b\<lparr>bids := level_remove (price ord) p (bids b)\<rparr>
                    else b\<lparr>asks := level_remove (price ord) p (asks b)\<rparr>);
              b2 = b1\<lparr>heap := (heap b1)(p := (heap b1 p)\<lparr>status := CANCELLED\<rparr>)\<rparr>;
              b3 = b2\<lparr>orders := (orders b2)(i := None)\<rparr>
          in (b3, True))"

text \<open>\<open>getBestBid\<close> and \<open>getBestAsk\<close>: the first key of the ladder, 0.0 when it is empty.\<close>

definition getBestBid :: "OrderBook \<Rightarrow> real" where
  "getBestBid b = (case bids b of [] \<Rightarrow> 0 | (p, os) # rest \<Rightarrow> p)"

definition getBestAsk :: "OrderBook \<Rightarrow> real" where
  "getBestAsk b = (case asks b of [] \<Rightarrow> 0 | (p, os) # rest \<Rightarrow> p)"

text \<open>
  The depth queries return a \<open>std::map<double, double>\<close> with the default comparator.
  It is modelled as the list of its entries in iteration order, that is by ascending key;
  \<open>depth_assign\<close> is \<open>depth[price] = totalQuantity\<close>.
\<close>

type_synonym depth = "(real \<times> real) list"

fun depth_assign :: "real \<Rightarrow> real \<Rightarrow> depth \<Rightarrow> depth" where
  "depth_assign p q [] = [(p, q)]"
| "depth_assign p q ((k, v) # rest) =
     (if p = k then (k, q) # rest
      else if p < k then (p, q) # (k, v) # rest
      else (k, v) # depth_assign p q rest)"

text \<open>The inner loop of a depth query: the remaining quantities of a level, added up.\<close>

definition totalQuantity :: "(ptr \<Rightarrow> Order) \<Rightarrow> ptr list \<Rightarrow> real" where
  "totalQuantity h os = foldl (\<lambda>total p. total + getRemainingQuantity (h p)) 0 os"

text \<open>
  The loop over the ladder, with its counter: \<open>if (count++ >= levels) break\<close>. Both
  \<open>count\<close> and \<open>levels\<close> are C++ \<open>int\<close>; the counter never exceeds the number of price
  levels by more than one, so it is modelled as an unbounded integer.
\<close>

fun depthLoop :: "(ptr \<Rightarrow> Order) \<Rightarrow> int \<Rightarrow> int \<Rightarrow> ladder \<Rightarrow> depth \<Rightarrow> depth" where
  "depthLoop h levels count [] d = d"
| "depthLoop h levels count ((p, os) # rest) d =
     (if count \<ge> levels then d
      else depthLoop h levels (count + 1) rest (depth_assign p (totalQuantity h os) d))"

definition getBidDepth :: "OrderBook \<Rightarrow> int \<Rightarrow> depth" where
  "getBidDepth b levels = depthLoop (heap b) levels 0 (bids b) []"

definition getAskDepth :: "OrderBook \<Rightarrow> int \<Rightarrow> depth" where
  "getAskDepth b levels = depthLoop (heap b) levels 0 (asks b) []"

text \<open>The constructor \<open>OrderBook::OrderBook\<close>: an empty book for the pair, no object yet.\<close>

definition newOrderBook :: "string \<Rightarrow> OrderBook" where
  "newOrderBook pr =
     \<lparr>heap = (\<lambda>p. newOrder 0 [] [] BUY MARKET 0 0), brk = 0, book_tradingPair = pr,
      bids = [], asks = [], orders = Map.empty\<rparr>"

section \<open>Matching engine (MatchingEngine.hpp, MatchingEngine.cpp)\<close>

text \<open>
  The registry maps a pair symbol to its book; the books are updated in place through
  their shared pointer, which the model writes as an update of the registry entry. The id
  counter is a \<open>std::atomic<uint64_t>\<close>, a 64-bit word that wraps around.
\<close>

record MatchingEngine =
  orderBooks :: "string \<rightharpoonup> OrderBook"
  orderIdCounter :: "64 word"

definition newMatchingEngine :: MatchingEngine where
  "newMatchingEngine = \<lparr>orderBooks = Map.empty, orderIdCounter = 0\<rparr>"

definition addTradingPair :: "MatchingEngine \<Rightarrow> string \<Rightarrow> MatchingEngine \<times> bool" where
  "addTradingPair e pr =
     (if orderBooks e pr \<noteq> None then (e, False)
      else (e\<lparr>orderBooks := (orderBooks e)(pr \<mapsto> newOrderBook pr)\<rparr>, True))"

text \<open>\<open>generateOrderId\<close> is \<open>return ++orderIdCounter_\<close>: the incremented value.\<close>

definition generateOrderId :: "MatchingEngine \<Rightarrow> MatchingEngine \<times> 64 word" where
  "generateOrderId e = (e\<lparr>orderIdCounter := orderIdCounter e + 1\<rparr>, orderIdCounter e + 1)"

definition getOrderBook :: "MatchingEngine \<Rightarrow> string \<Rightarrow> OrderBook option" where
  "getOrderBook e pr = orderBooks e pr"

text \<open>
  \<open>submitOrder\<close> returns the engine as the call leaves it together with either the
  exception thrown or the trades. \<open>std::invalid_argument\<close> is \<open>InvalidArgument\<close>, the
  \<open>std::runtime_error\<close> for a pair that is not registered is \<open>UnknownPair\<close>, and the
  \<open>std::invalid_argument\<close> of \<open>OrderBook::addOrder\<close> is \<open>WrongPair\<close>.
\<close>

definition submitOrder ::
  "MatchingEngine \<Rightarrow> string \<Rightarrow> string \<Rightarrow> OrderSide \<Rightarrow> OrderType \<Rightarrow> real \<Rightarrow> real
     \<Rightarrow> MatchingEngine \<times> (error + Trade list)" where
  "submitOrder e user pr sd ty p q =
     (if q \<le> 0 then (e, Inl InvalidArgument)
      else if ty = LIMIT \<and> p \<le> 0 then (e, Inl InvalidArgument)
      else (case getOrderBook e pr of
              None \<Rightarrow> (e, Inl UnknownPair)
            | Some orderBook \<Rightarrow>
                (case generateOrderId e of
                   (e1, orderId) \<Rightarrow>
                     (case addOrder orderBook (newOrder orderId user pr sd ty p q) of
                        Inl err \<Rightarrow> (e1, Inl err)
                      | Inr (orderBook', trades) \<Rightarrow>
                          (e1\<lparr>orderBooks := (orderBooks e1)(pr \<mapsto> orderBook')\<rparr>,
                           Inr trades)))))"

definition engine_cancelOrder :: "MatchingEngine \<Rightarrow> 64 word \<Rightarrow> string \<Rightarrow> MatchingEngine \<times> bool" where
  "engine_cancelOrder e orderId pr =
     (case getOrderBook e pr of
        None \<Rightarrow> (e, False)
      | Some orderBook \<Rightarrow>
          (case cancelOrder orderBook orderId of
             (orderBook', r) \<Rightarrow> (e\<lparr>orderBooks := (orderBooks e)(pr \<mapsto> orderBook')\<rparr>, r)))"

section \<open>Auxiliary notions for the statements\<close>

definition makerId :: "OrderSide \<Rightarrow> Trade \<Rightarrow> 64 word" where
  "makerId takerSide tr = (if takerSide = BUY then sellOrderId tr else buyOrderId tr)"

definition takerId :: "OrderSide \<Rightarrow> Trade \<Rightarrow> 64 word" where
  "takerId takerSide tr = (if takerSide = BUY then buyOrderId tr else sellOrderId tr)"

definition flat :: "ladder \<Rightarrow> ptr list" where
  "flat L = concat (map snd L)"

definition level_ok :: "(ptr \<Rightarrow> Order) \<Rightarrow> OrderSide \<Rightarrow> real \<times> ptr list \<Rightarrow> bool" where
  "level_ok h sd lv \<longleftrightarrow>
     snd lv \<noteq> [] \<and> (\<forall>x \<in> set (snd lv). price (h x) = fst lv \<and> side (h x) = sd)"

definition ladder_ok :: "(ptr \<Rightarrow> Order) \<Rightarrow> OrderSide \<Rightarrow> ladder \<Rightarrow> bool" where
  "ladder_ok h sd L \<longleftrightarrow> (\<forall>lv \<in> set L. level_ok h sd lv)"

definition book_ok :: "OrderBook \<Rightarrow> bool" where
  "book_ok b \<longleftrightarrow>
     sorted_wrt (>) (map fst (bids b)) \<and> sorted_wrt (<) (map fst (asks b))
     \<and> ladder_ok (heap b) BUY (bids b) \<and> ladder_ok (heap b) SELL (asks b)
     \<and> distinct (flat (bids b) @ flat (asks b))
     \<and> (\<forall>x \<in> set (flat (bids b) @ flat (asks b)). x < brk b \<and> \<not> isFilled (heap b x))
     \<and> (\<forall>x \<in> set [0..<brk b]. filledQuantity (heap b x) \<le> quantity (heap b x))"


definition accepts :: "Order \<Rightarrow> real \<Rightarrow> bool" where
  "accepts ord = (if otype ord = MARKET then (\<lambda>p. True)
                  else if side ord = BUY then (\<lambda>p. p \<le> price ord)
                  else (\<lambda>p. p \<ge> price ord))"

definition opposite :: "OrderBook \<Rightarrow> OrderSide \<Rightarrow> ladder" where
  "opposite b sd = (if sd = BUY then asks b else bids b)"

definition own :: "OrderBook \<Rightarrow> OrderSide \<Rightarrow> ladder" where
  "own b sd = (if sd = BUY then bids b else asks b)"

definition ahead :: "OrderSide \<Rightarrow> real \<Rightarrow> real \<Rightarrow> bool" where
  "ahead sd = (if sd = BUY then (>) else (<))"

text \<open>
  The levels the taker may reach are those before the first price it does not accept. On
  their orders, taken as one queue, the ladder loop is the level loop.
\<close>

definition reach :: "(real \<Rightarrow> bool) \<Rightarrow> ladder \<Rightarrow> ptr list" where
  "reach ok L = flat (takeWhile (\<lambda>lv. ok (fst lv)) L)"

definition beyond :: "(real \<Rightarrow> bool) \<Rightarrow> ladder \<Rightarrow> ptr list" where
  "beyond ok L = flat (dropWhile (\<lambda>lv. ok (fst lv)) L)"

text \<open>
  Every book that \<open>addTradingPair\<close> registers carries the symbol it is registered under.
\<close>

definition registry_ok :: "MatchingEngine \<Rightarrow> bool" where
  "registry_ok e \<longleftrightarrow> (\<forall>pr b. orderBooks e pr = Some b \<longrightarrow> book_tradingPair b = pr)"

text \<open>
  A history of calls on one engine. \<open>runCalls\<close> makes them one after the other and
  collects, in call order, the id that \<open>generateOrderId\<close> returned to each submit call
  that succeeded.
\<close>

datatype call =
    Submit string string OrderSide OrderType real real
  | Cancel "64 word" string
  | AddPair string

fun isSubmit :: "call \<Rightarrow> bool" where
  "isSubmit (Submit user pr sd ty p q) = True"
| "isSubmit c = False"

fun runCalls :: "MatchingEngine \<Rightarrow> call list \<Rightarrow> MatchingEngine \<times> 64 word list" where
  "runCalls e [] = (e, [])"
| "runCalls e (Submit user pr sd ty p q # cs) =
     (case submitOrder e user pr sd ty p q of
        (e', Inl err) \<Rightarrow> runCalls e' cs
      | (e', Inr trades) \<Rightarrow>
          (case runCalls e' cs of (e'', ids) \<Rightarrow> (e'', snd (generateOrderId e) # ids)))"
| "runCalls e (Cancel i pr # cs) = runCalls (fst (engine_cancelOrder e i pr)) cs"
| "runCalls e (AddPair pr # cs) = runCalls (fst (addTradingPair e pr)) cs"

text \<open>An engine with one registered pair whose counter is two short of wrapping.\<close>

definition engineNearWrap :: MatchingEngine where
  "engineNearWrap = \<lparr>orderBooks = [''ETH/USDT'' \<mapsto> newOrderBook ''ETH/USDT''],
                     orderIdCounter = - 2\<rparr>"

definition twoSubmits :: "call list" where
  "twoSubmits = [Submit ''u1'' ''ETH/USDT'' BUY LIMIT 2000 1,
                 Submit ''u2'' ''ETH/USDT'' BUY LIMIT 1990 2]"

definition twoPairCalls :: "call list" where
  "twoPairCalls = [AddPair ''ETH/USDT'', AddPair ''BTC/USDT'',
                   Submit ''u1'' ''ETH/USDT'' BUY LIMIT 2000 1,
                   Submit ''u2'' ''BTC/USDT'' SELL LIMIT 30000 2,
                   Submit ''u3'' ''SOL/USDT'' SELL LIMIT 10 1,
                   Cancel 1 ''ETH/USDT'',
                   Submit ''u4'' ''ETH/USDT'' SELL MARKET 0 1]"

text \<open>The book of a pair in an engine (an empty book if the pair is not registered).\<close>

definition bookOf :: "MatchingEngine \<Rightarrow> string \<Rightarrow> OrderBook" where
  "bookOf e pr = (case orderBooks e pr of Some b \<Rightarrow> b | None \<Rightarrow> newOrderBook pr)"

text \<open>
  Histories used as concrete inputs. \<open>crossingCalls\<close>: a resting sell of 5 at 100, then
  a buy of 3 limited at 101, which is filled at once. \<open>marketCalls\<close>: a resting sell of 1
  at 10, then a market buy of 4 (its price argument is 0). \<open>populateCalls\<close>: three bids
  and two asks that do not cross.
\<close>

definition crossingCalls :: "call list" where
  "crossingCalls = [AddPair ''ETH/USDT'',
                    Submit ''sA'' ''ETH/USDT'' SELL LIMIT 100 5,
                    Submit ''bB'' ''ETH/USDT'' BUY LIMIT 101 3]"

definition marketCalls :: "call list" where
  "marketCalls = [AddPair ''ETH/USDT'',
                  Submit ''s1'' ''ETH/USDT'' SELL LIMIT 10 1]"

definition populateCalls :: "call list" where
  "populateCalls = [AddPair ''ETH/USDT'',
                    Submit ''u1'' ''ETH/USDT'' BUY LIMIT 2000 (3 / 2),
                    Submit ''u2'' ''ETH/USDT'' BUY LIMIT 1990 2,
                    Submit ''u3'' ''ETH/USDT'' BUY LIMIT 1995 1,
                    Submit ''u4'' ''ETH/USDT'' SELL LIMIT 2010 1,
                    Submit ''u5'' ''ETH/USDT'' SELL LIMIT 2020 (5 / 2)]"

definition crossedBook :: OrderBook where
  "crossedBook = bookOf (fst (runCalls newMatchingEngine crossingCalls)) ''ETH/USDT''"

definition populatedBook :: OrderBook where
  "populatedBook = bookOf (fst (runCalls newMatchingEngine populateCalls)) ''ETH/USDT''"

text \<open>The (price, total remaining quantity) entry of a price level.\<close>

definition levelEntry :: "(ptr \<Rightarrow> Order) \<Rightarrow> real \<times> ptr list \<Rightarrow> real \<times> real" where
  "levelEntry h lv = (fst lv, sum_list (map (\<lambda>x. getRemainingQuantity (h x)) (snd lv)))"

section \<open>Properties of the matching loops\<close>

subsection \<open>One fill\<close>

definition static :: "Order \<Rightarrow> 64 word \<times> string \<times> string \<times> OrderSide \<times> OrderType \<times> real \<times> real" where
  "static ord = (oid ord, userId ord, tradingPair ord, side ord, otype ord, price ord, quantity ord)"

lemma static_eqD:
  assumes "static a = static b"
  shows "oid a = oid b" and "userId a = userId b" and "tradingPair a = tradingPair b"
    and "side a = side b" and "otype a = otype b" and "price a = price b"
    and "quantity a = quantity b"
  using assms by (simp_all add: static_def)

lemma applyFill_static: "static (applyFill h p q x) = static (h x)"
  by (simp add: applyFill_def static_def)

lemma applyFill_filled:
  "filledQuantity (applyFill h p q x) = filledQuantity (h x) + (if x = p then q else 0)"
  by (simp add: applyFill_def)

lemma applyFill_frame: "x \<noteq> p \<Longrightarrow> applyFill h p q x = h x"
  by (simp add: applyFill_def)

lemma updateStatus_static: "static (updateStatus h p x) = static (h x)"
  by (simp add: updateStatus_def static_def)

lemma updateStatus_filled: "filledQuantity (updateStatus h p x) = filledQuantity (h x)"
  by (simp add: updateStatus_def)

lemma updateStatus_frame: "x \<noteq> p \<Longrightarrow> updateStatus h p x = h x"
  by (simp add: updateStatus_def)

lemma executeTrade_static:
  "executeTrade h b s p q = (h', tr) \<Longrightarrow> static (h' x) = static (h x)"
  by (auto simp: executeTrade_def Let_def updateStatus_static applyFill_static)

lemma executeTrade_filled:
  "executeTrade h b s p q = (h', tr) \<Longrightarrow>
     filledQuantity (h' x) =
       filledQuantity (h x) + (if x = b then q else 0) + (if x = s then q else 0)"
  by (auto simp: executeTrade_def Let_def updateStatus_filled applyFill_filled)

lemma executeTrade_frame:
  "executeTrade h b s p q = (h', tr) \<Longrightarrow> x \<noteq> b \<Longrightarrow> x \<noteq> s \<Longrightarrow> h' x = h x"
  by (auto simp: executeTrade_def Let_def updateStatus_frame applyFill_frame)

lemma executeTrade_trade:
  assumes "executeTrade h b s p q = (h', tr)"
  shows "buyOrderId tr = oid (h b)" and "sellOrderId tr = oid (h s)"
    and "trade_price tr = p" and "trade_quantity tr = q"
proof -
  from assms have tr: "tr = \<lparr>buyOrderId = oid (h' b), sellOrderId = oid (h' s),
                             trade_price = p, trade_quantity = q\<rparr>"
    by (auto simp: executeTrade_def Let_def)
  from static_eqD(1) [OF executeTrade_static [OF assms]] tr
  show "buyOrderId tr = oid (h b)" and "sellOrderId tr = oid (h s)"
    and "trade_price tr = p" and "trade_quantity tr = q"
    by simp_all
qed

lemma fillFront_static:
  "fillFront h t m = (h', tr) \<Longrightarrow> static (h' x) = static (h x)"
  unfolding fillFront_def Let_def by (rule executeTrade_static)

lemma fillFront_frame:
  assumes "fillFront h t m = (h', tr)" and "x \<noteq> t" and "x \<noteq> m"
  shows "h' x = h x"
proof (rule executeTrade_frame)
  show "executeTrade h (if side (h t) = BUY then t else m) (if side (h t) = SELL then t else m)
          (price (h m)) (min (getRemainingQuantity (h t)) (getRemainingQuantity (h m))) = (h', tr)"
    using assms(1) by (simp add: fillFront_def Let_def)
  show "x \<noteq> (if side (h t) = BUY then t else m)" using assms(2,3) by simp
  show "x \<noteq> (if side (h t) = SELL then t else m)" using assms(2,3) by simp
qed

lemma fillFront_trade:
  assumes "fillFront h t m = (h', tr)"
  shows "trade_price tr = price (h m)"
    and "trade_quantity tr = min (getRemainingQuantity (h t)) (getRemainingQuantity (h m))"
    and "makerId (side (h t)) tr = oid (h m)"
    and "takerId (side (h t)) tr = oid (h t)"
proof -
  let ?b = "if side (h t) = BUY then t else m" and ?s = "if side (h t) = SELL then t else m"
  have e: "executeTrade h ?b ?s (price (h m))
             (min (getRemainingQuantity (h t)) (getRemainingQuantity (h m))) = (h', tr)"
    using assms by (simp add: fillFront_def Let_def)
  note tr = executeTrade_trade [OF e]
  show "trade_price tr = price (h m)" by (rule tr(3))
  show "trade_quantity tr = min (getRemainingQuantity (h t)) (getRemainingQuantity (h m))"
    by (rule tr(4))
  show "makerId (side (h t)) tr = oid (h m)"
    using tr(1,2) by (cases "side (h t)") (simp_all add: makerId_def)
  show "takerId (side (h t)) tr = oid (h t)"
    using tr(1,2) by (cases "side (h t)") (simp_all add: takerId_def)
qed

lemma fillFront_filled:
  assumes "fillFront h t m = (h', tr)" and "t \<noteq> m"
  shows "filledQuantity (h' t) = filledQuantity (h t) + trade_quantity tr"
    and "filledQuantity (h' m) = filledQuantity (h m) + trade_quantity tr"
proof -
  let ?b = "if side (h t) = BUY then t else m" and ?s = "if side (h t) = SELL then t else m"
  have e: "executeTrade h ?b ?s (price (h m))
             (min (getRemainingQuantity (h t)) (getRemainingQuantity (h m))) = (h', tr)"
    using assms by (simp add: fillFront_def Let_def)
  note q = executeTrade_trade(4) [OF e] and f = executeTrade_filled [OF e]
  show "filledQuantity (h' t) = filledQuantity (h t) + trade_quantity tr"
    using f [of t] q assms(2) by (cases "side (h t)") simp_all
  show "filledQuantity (h' m) = filledQuantity (h m) + trade_quantity tr"
    using f [of m] q assms(2) by (cases "side (h t)") simp_all
qed

lemma fillFront_positive:
  assumes "fillFront h t m = (h', tr)" and "\<not> isFilled (h t)" and "\<not> isFilled (h m)"
  shows "0 < trade_quantity tr"
  using assms(2,3) fillFront_trade(2) [OF assms(1)]
  by (simp add: isFilled_def getRemainingQuantity_def min_def)

lemma fillFront_no_overfill:
  assumes "fillFront h t m = (h', tr)" and "t \<noteq> m"
    and "filledQuantity (h x) \<le> quantity (h x)"
  shows "filledQuantity (h' x) \<le> quantity (h' x)"
proof -
  have q: "quantity (h' x) = quantity (h x)"
    using static_eqD(7) [OF fillFront_static [OF assms(1)]] .
  consider "x = t" | "x = m" | "x \<noteq> t" "x \<noteq> m" by blast
  then show ?thesis
  proof cases
    case 1
    with fillFront_filled(1) [OF assms(1,2)] fillFront_trade(2) [OF assms(1)] assms(3) q
    show ?thesis by (simp add: getRemainingQuantity_def min_def split: if_splits)
  next
    case 2
    with fillFront_filled(2) [OF assms(1,2)] fillFront_trade(2) [OF assms(1)] assms(3) q
    show ?thesis by (simp add: getRemainingQuantity_def min_def split: if_splits)
  next
    case 3
    with fillFront_frame [OF assms(1)] assms(3) show ?thesis by simp
  qed
qed

subsection \<open>The loop over one level\<close>

lemma matchLevel_filled: "isFilled (h t) \<Longrightarrow> matchLevel h t os = (h, os, [])"
  by (cases os) simp_all

lemma matchLevel_cases [consumes 1, case_names Nil Filled Pop Stay]:
  assumes "matchLevel h t os = (h', os', trs)"
    and "\<And>h. P h [] h [] []"
    and "\<And>h m os. isFilled (h t) \<Longrightarrow> P h (m # os) h (m # os) []"
    and "\<And>h m os h1 tr h' os' trs.
           \<not> isFilled (h t) \<Longrightarrow> fillFront h t m = (h1, tr) \<Longrightarrow> isFilled (h1 m) \<Longrightarrow>
           matchLevel h1 t os = (h', os', trs) \<Longrightarrow> P h1 os h' os' trs \<Longrightarrow>
           P h (m # os) h' os' (tr # trs)"
    and "\<And>h m os h1 tr.
           \<not> isFilled (h t) \<Longrightarrow> fillFront h t m = (h1, tr) \<Longrightarrow> \<not> isFilled (h1 m) \<Longrightarrow>
           isFilled (h1 t) \<Longrightarrow> P h (m # os) h1 (m # os) [tr]"
  shows "P h os h' os' trs"
  using assms(1)
proof (induction os arbitrary: h h' os' trs)
  case Nil
  then show ?case using assms(2) by simp
next
  case (Cons m os)
  show ?case
  proof (cases "isFilled (h t)")
    case True
    with Cons.prems have "h' = h" "os' = m # os" "trs = []" by simp_all
    with assms(3) [of h m os] True show ?thesis by simp
  next
    case False
    obtain h1 tr where f: "fillFront h t m = (h1, tr)" by (cases "fillFront h t m")
    show ?thesis
    proof (cases "isFilled (h1 m)")
      case True
      obtain h2 os2 trs2 where r: "matchLevel h1 t os = (h2, os2, trs2)"
        by (cases "matchLevel h1 t os")
      from Cons.prems False f True r have "h' = h2" "os' = os2" "trs = tr # trs2" by simp_all
      with assms(4) [of h m h1 tr os h2 os2 trs2] False f True r Cons.IH [OF r]
      show ?thesis by simp
    next
      case nf: False
      from fillFront_progress [OF f False nf] have ft: "isFilled (h1 t)" .
      with Cons.prems False f nf have "h' = h1" "os' = m # os" "trs = [tr]"
        by (simp_all add: matchLevel_filled)
      with assms(5) [of h m h1 tr os] False f nf ft show ?thesis by simp
    qed
  qed
qed

lemma matchLevel_append:
  "matchLevel h t (xs @ ys) =
     (case matchLevel h t xs of
        (h1, [], trs1) \<Rightarrow> (case matchLevel h1 t ys of (h2, ys', trs2) \<Rightarrow> (h2, ys', trs1 @ trs2))
      | (h1, x # xs', trs1) \<Rightarrow> (h1, (x # xs') @ ys, trs1))"
proof -
  obtain h' os' trs where r: "matchLevel h t xs = (h', os', trs)" by (cases "matchLevel h t xs")
  from r have "matchLevel h t (xs @ ys) =
     (case (h', os', trs) of
        (h1, [], trs1) \<Rightarrow> (case matchLevel h1 t ys of (h2, ys', trs2) \<Rightarrow> (h2, ys', trs1 @ trs2))
      | (h1, x # xs', trs1) \<Rightarrow> (h1, (x # xs') @ ys, trs1))"
  proof (induction rule: matchLevel_cases)
    case (Nil h)
    then show ?case by (simp split: prod.splits)
  next
    case (Filled h m os)
    then show ?case by (simp add: matchLevel_filled)
  next
    case (Pop h m os h1 tr h' os' trs)
    then show ?case by (simp split: prod.splits list.splits)
  next
    case (Stay h m os h1 tr)
    then show ?case by (simp add: matchLevel_filled)
  qed
  with r show ?thesis by simp
qed


lemma matchLevel_static:
  "matchLevel h t os = (h', os', trs) \<Longrightarrow> static (h' x) = static (h x)"
proof (induction rule: matchLevel_cases)
  case (Pop h m os h1 tr h' os' trs)
  with fillFront_static [of h t m h1 tr x] show ?case by simp
next
  case (Stay h m os h1 tr)
  then show ?case by (simp add: fillFront_static)
qed simp_all

lemma matchLevel_frame:
  "matchLevel h t os = (h', os', trs) \<Longrightarrow> x \<noteq> t \<Longrightarrow> x \<notin> set os \<Longrightarrow> h' x = h x"
proof (induction rule: matchLevel_cases)
  case (Pop h m os h1 tr h' os' trs)
  with fillFront_frame [of h t m h1 tr x] show ?case by simp
next
  case (Stay h m os h1 tr)
  with fillFront_frame [of h t m h1 tr x] show ?case by simp
qed simp_all

lemma matchLevel_rest:
  "matchLevel h t os = (h', os', trs) \<Longrightarrow>
     os' = drop (length trs) os \<or> (trs \<noteq> [] \<and> os' = drop (length trs - 1) os)"
proof (induction rule: matchLevel_cases)
  case (Pop h m os h1 tr h' os' trs)
  then show ?case by (cases trs) auto
qed simp_all

lemma matchLevel_length: "matchLevel h t os = (h', os', trs) \<Longrightarrow> length trs \<le> length os"
  by (induction rule: matchLevel_cases) simp_all

lemma matchLevel_trades:
  assumes "matchLevel h t os = (h', os', trs)"
  shows "map trade_price trs = map (\<lambda>x. price (h x)) (take (length trs) os)
         \<and> map (makerId (side (h t))) trs = map (\<lambda>x. oid (h x)) (take (length trs) os)
         \<and> (\<forall>tr \<in> set trs. takerId (side (h t)) tr = oid (h t))"
  using assms
proof (induction rule: matchLevel_cases)
  case (Pop h m os h1 tr h' os' trs)
  note st = static_eqD [OF fillFront_static [OF Pop(2)]]
  have p: "(\<lambda>x. price (h1 x)) = (\<lambda>x. price (h x))"
    and i: "(\<lambda>x. oid (h1 x)) = (\<lambda>x. oid (h x))"
    and s: "side (h1 t) = side (h t)" and o: "oid (h1 t) = oid (h t)"
    by (simp_all add: st)
  note tr = fillFront_trade [OF Pop(2)]
  from Pop(5) have
    "map trade_price trs = map (\<lambda>x. price (h x)) (take (length trs) os)"
    "map (makerId (side (h t))) trs = map (\<lambda>x. oid (h x)) (take (length trs) os)"
    "\<forall>tr \<in> set trs. takerId (side (h t)) tr = oid (h t)"
    unfolding p i s o by blast+
  then show ?case using tr(1,3,4) by simp
next
  case (Stay h m os h1 tr)
  note tr = fillFront_trade [OF Stay(2)]
  show ?case using tr(1,3,4) by simp
qed simp_all

lemma matchLevel_popped_filled:
  assumes "matchLevel h t os = (h', os', trs)" and "t \<notin> set os" and "distinct os"
  shows "\<forall>x \<in> set os. x \<notin> set os' \<longrightarrow> isFilled (h' x)"
  using assms
proof (induction rule: matchLevel_cases)
  case (Pop h m os h1 tr h' os' trs)
  from Pop.prems have m: "m \<noteq> t" "m \<notin> set os" by auto
  from matchLevel_frame [OF Pop(4) m] Pop(3) have "isFilled (h' m)" by simp
  with Pop show ?case by auto
qed simp_all

lemma matchLevel_rest_unfilled:
  assumes "matchLevel h t os = (h', os', trs)" and "t \<notin> set os" and "distinct os"
    and "\<forall>x \<in> set os. \<not> isFilled (h x)"
  shows "\<forall>x \<in> set os'. \<not> isFilled (h' x)"
  using assms
proof (induction rule: matchLevel_cases)
  case (Pop h m os h1 tr h' os' trs)
  have "\<forall>x \<in> set os. \<not> isFilled (h1 x)"
  proof
    fix x assume x: "x \<in> set os"
    with Pop.prems have "x \<noteq> t" "x \<noteq> m" by auto
    from fillFront_frame [OF Pop(2) this] x Pop.prems show "\<not> isFilled (h1 x)" by simp
  qed
  with Pop show ?case by simp
next
  case (Stay h m os h1 tr)
  show ?case
  proof
    fix x assume x: "x \<in> set (m # os)"
    show "\<not> isFilled (h1 x)"
    proof (cases "x = m")
      case True
      with Stay(3) show ?thesis by simp
    next
      case False
      with x Stay.prems have "x \<noteq> t" "x \<noteq> m" by auto
      from fillFront_frame [OF Stay(2) this] x Stay.prems show ?thesis by auto
    qed
  qed
qed simp_all

lemma matchLevel_positive:
  assumes "matchLevel h t os = (h', os', trs)" and "t \<notin> set os" and "distinct os"
    and "\<forall>x \<in> set os. \<not> isFilled (h x)"
  shows "\<forall>tr \<in> set trs. 0 < trade_quantity tr"
  using assms
proof (induction rule: matchLevel_cases)
  case (Pop h m os h1 tr h' os' trs)
  have "\<forall>x \<in> set os. \<not> isFilled (h1 x)"
  proof
    fix x assume x: "x \<in> set os"
    with Pop.prems have "x \<noteq> t" "x \<noteq> m" by auto
    from fillFront_frame [OF Pop(2) this] x Pop.prems show "\<not> isFilled (h1 x)" by simp
  qed
  moreover have "0 < trade_quantity tr"
    using fillFront_positive [OF Pop(2) Pop(1)] Pop.prems by simp
  ultimately show ?case using Pop by simp
next
  case (Stay h m os h1 tr)
  then show ?case using fillFront_positive [OF Stay(2) Stay(1)] by simp
qed simp_all

lemma matchLevel_no_overfill:
  assumes "matchLevel h t os = (h', os', trs)" and "t \<notin> set os"
    and "filledQuantity (h x) \<le> quantity (h x)"
  shows "filledQuantity (h' x) \<le> quantity (h' x)"
  using assms
proof (induction rule: matchLevel_cases)
  case (Pop h m os h1 tr h' os' trs)
  from Pop.prems have "t \<noteq> m" by auto
  from fillFront_no_overfill [OF Pop(2) this Pop.prems(2)] Pop show ?case by simp
next
  case (Stay h m os h1 tr)
  from Stay.prems have "t \<noteq> m" by auto
  from fillFront_no_overfill [OF Stay(2) this Stay.prems(2)] show ?case .
qed simp_all

lemma matchLevel_taker_filled:
  assumes "matchLevel h t os = (h', os', trs)" and "t \<notin> set os"
  shows "filledQuantity (h' t) = filledQuantity (h t) + sum_list (map trade_quantity trs)"
  using assms
proof (induction rule: matchLevel_cases)
  case (Pop h m os h1 tr h' os' trs)
  from Pop.prems have "t \<noteq> m" by auto
  from fillFront_filled(1) [OF Pop(2) this] Pop show ?case by simp
next
  case (Stay h m os h1 tr)
  from Stay.prems have "t \<noteq> m" by auto
  from fillFront_filled(1) [OF Stay(2) this] show ?case by simp
qed simp_all

lemma sum_list_frame:
  "(\<And>x. x \<in> set os \<Longrightarrow> h' x = h x) \<Longrightarrow>
     sum_list (map (\<lambda>x. filledQuantity (h' x)) os) = sum_list (map (\<lambda>x. filledQuantity (h x)) os)"
  by (induction os) simp_all

lemma matchLevel_makers_filled:
  assumes "matchLevel h t os = (h', os', trs)" and "t \<notin> set os" and "distinct os"
  shows "sum_list (map (\<lambda>x. filledQuantity (h' x)) os)
           = sum_list (map (\<lambda>x. filledQuantity (h x)) os) + sum_list (map trade_quantity trs)"
  using assms
proof (induction rule: matchLevel_cases)
  case (Pop h m os h1 tr h' os' trs)
  from Pop.prems have m: "m \<noteq> t" "m \<notin> set os" by auto
  have a: "filledQuantity (h' m) = filledQuantity (h m) + trade_quantity tr"
    using matchLevel_frame [OF Pop(4) m] fillFront_filled(2) [OF Pop(2)] m(1) by simp
  have "\<And>x. x \<in> set os \<Longrightarrow> h1 x = h x"
    using fillFront_frame [OF Pop(2)] Pop.prems by (metis distinct.simps(2) list.set_intros(2))
  from sum_list_frame [of os h1 h, OF this] a Pop show ?case by simp
next
  case (Stay h m os h1 tr)
  from Stay.prems have m: "m \<noteq> t" "m \<notin> set os" by auto
  have "\<And>x. x \<in> set os \<Longrightarrow> h1 x = h x"
    using fillFront_frame [OF Stay(2)] Stay.prems by (metis distinct.simps(2) list.set_intros(2))
  from sum_list_frame [of os h1 h, OF this] fillFront_filled(2) [OF Stay(2)] m(1)
  show ?case by simp
qed simp_all


subsection \<open>The loop over the ladder\<close>

lemma matchBook_filled: "isFilled (h t) \<Longrightarrow> matchBook ok h t L = (h, L, [])"
  by (cases L) auto

lemma matchBook_cases [consumes 1, case_names Nil Filled Reject Next Stay]:
  assumes "matchBook ok h t L = (h', L', trs)"
    and "\<And>h. P h [] h [] []"
    and "\<And>h p os rest. isFilled (h t) \<Longrightarrow> P h ((p, os) # rest) h ((p, os) # rest) []"
    and "\<And>h p os rest. \<not> isFilled (h t) \<Longrightarrow> \<not> ok p \<Longrightarrow>
           P h ((p, os) # rest) h ((p, os) # rest) []"
    and "\<And>h p os rest h1 trs1 h' L' trs2.
           \<not> isFilled (h t) \<Longrightarrow> ok p \<Longrightarrow> matchLevel h t os = (h1, [], trs1) \<Longrightarrow>
           matchBook ok h1 t rest = (h', L', trs2) \<Longrightarrow> P h1 rest h' L' trs2 \<Longrightarrow>
           P h ((p, os) # rest) h' L' (trs1 @ trs2)"
    and "\<And>h p os rest h1 os1 trs1.
           \<not> isFilled (h t) \<Longrightarrow> ok p \<Longrightarrow> matchLevel h t os = (h1, os1, trs1) \<Longrightarrow>
           os1 \<noteq> [] \<Longrightarrow> isFilled (h1 t) \<Longrightarrow>
           P h ((p, os) # rest) h1 ((p, os1) # rest) trs1"
  shows "P h L h' L' trs"
  using assms(1)
proof (induction L arbitrary: h h' L' trs)
  case Nil
  then show ?case using assms(2) by simp
next
  case (Cons lv rest)
  obtain p os where lv: "lv = (p, os)" by (cases lv)
  show ?case
  proof (cases "isFilled (h t)")
    case True
    with Cons.prems lv have "h' = h" "L' = (p, os) # rest" "trs = []" by simp_all
    with assms(3) [of h p os rest] True lv show ?thesis by simp
  next
    case False
    show ?thesis
    proof (cases "ok p")
      case nok: False
      with Cons.prems lv False have "h' = h" "L' = (p, os) # rest" "trs = []" by simp_all
      with assms(4) [of h p os rest] False nok lv show ?thesis by simp
    next
      case True
      obtain h1 os1 trs1 where l: "matchLevel h t os = (h1, os1, trs1)"
        by (cases "matchLevel h t os")
      show ?thesis
      proof (cases "os1 = []")
        case e: True
        obtain h2 L2 trs2 where r: "matchBook ok h1 t rest = (h2, L2, trs2)"
          by (cases "matchBook ok h1 t rest")
        from Cons.prems lv False True l e r
        have "h' = h2" "L' = L2" "trs = trs1 @ trs2" by simp_all
        with assms(5) [of h p os h1 trs1 rest h2 L2 trs2] False True l e r Cons.IH [OF r] lv
        show ?thesis by simp
      next
        case ne: False
        with matchLevel_done [OF l] have ft: "isFilled (h1 t)" by simp
        from Cons.prems lv False True l ne ft
        have "h' = h1" "L' = (p, os1) # rest" "trs = trs1" by (simp_all add: matchBook_filled)
        with assms(6) [of h p os h1 os1 trs1 rest] False True l ne ft lv
        show ?thesis by simp
      qed
    qed
  qed
qed

lemma flat_simps [simp]: "flat [] = []" "flat ((p, os) # L) = os @ flat L"
  by (simp_all add: flat_def)

lemma flat_reach_beyond: "flat L = reach ok L @ beyond ok L"
proof -
  have "flat (takeWhile P L @ dropWhile P L) = flat (takeWhile P L) @ flat (dropWhile P L)" for P
    unfolding flat_def by (simp only: map_append concat_append)
  then show ?thesis by (simp add: reach_def beyond_def)
qed

lemma matchBook_flat:
  "matchBook ok h t L = (h', L', trs) \<Longrightarrow>
     \<exists>os'. matchLevel h t (reach ok L) = (h', os', trs) \<and> flat L' = os' @ beyond ok L"
proof (induction rule: matchBook_cases)
  case (Nil h)
  show ?case by (simp add: reach_def beyond_def)
next
  case (Filled h p os rest)
  then show ?case using flat_reach_beyond [of "(p, os) # rest" ok] by (simp add: matchLevel_filled)
next
  case (Reject h p os rest)
  then show ?case by (simp add: reach_def beyond_def)
next
  case (Next h p os rest h1 trs1 h' L' trs2)
  then obtain os' where
    r: "matchLevel h1 t (reach ok rest) = (h', os', trs2)" "flat L' = os' @ beyond ok rest"
    by blast
  have "reach ok ((p, os) # rest) = os @ reach ok rest" "beyond ok ((p, os) # rest) = beyond ok rest"
    using Next(2) by (simp_all add: reach_def beyond_def)
  with r Next(3) show ?case by (simp add: matchLevel_append)
next
  case (Stay h p os rest h1 os1 trs1)
  have e: "reach ok ((p, os) # rest) = os @ reach ok rest"
          "beyond ok ((p, os) # rest) = beyond ok rest"
    using Stay(2) by (simp_all add: reach_def beyond_def)
  from Stay(4) obtain x xs where "os1 = x # xs" by (cases os1) auto
  with Stay(3) e flat_reach_beyond [of rest ok] show ?case by (simp add: matchLevel_append)
qed

lemma matchBook_keys:
  "matchBook ok h t L = (h', L', trs) \<Longrightarrow> \<exists>k. map fst L' = drop k (map fst L)"
proof (induction rule: matchBook_cases)
  case (Next h p os rest h1 trs1 h' L' trs2)
  then obtain k where "map fst L' = drop k (map fst rest)" by blast
  then have "map fst L' = drop (Suc k) (map fst ((p, os) # rest))" by simp
  then show ?case by blast
next
  case (Stay h p os rest h1 os1 trs1)
  have "map fst ((p, os1) # rest) = drop 0 (map fst ((p, os) # rest))" by simp
  then show ?case by blast
qed (auto intro: exI [of _ 0])


lemma matchBook_length:
  "matchBook ok h t L = (h', L', trs) \<Longrightarrow> length trs \<le> length (reach ok L)"
  using matchBook_flat [of ok h t L h' L' trs] matchLevel_length by blast

lemma take_reach:
  "n \<le> length (reach ok L) \<Longrightarrow> take n (flat L) = take n (reach ok L)"
  by (simp add: flat_reach_beyond [of L ok])

lemma matchBook_static:
  "matchBook ok h t L = (h', L', trs) \<Longrightarrow> static (h' x) = static (h x)"
  using matchBook_flat [of ok h t L h' L' trs] matchLevel_static by blast

lemma matchBook_frame:
  assumes "matchBook ok h t L = (h', L', trs)" and "x \<noteq> t" and "x \<notin> set (flat L)"
  shows "h' x = h x"
proof -
  from matchBook_flat [OF assms(1)] obtain os' where
    m: "matchLevel h t (reach ok L) = (h', os', trs)" by blast
  from assms(3) have "x \<notin> set (reach ok L)" by (simp add: flat_reach_beyond [of L ok])
  from matchLevel_frame [OF m assms(2) this] show ?thesis .
qed

lemma matchBook_flat_drop:
  assumes "matchBook ok h t L = (h', L', trs)"
  shows "\<exists>k. flat L' = drop k (flat L)"
proof -
  from matchBook_flat [OF assms] obtain os' where
    m: "matchLevel h t (reach ok L) = (h', os', trs)" and f: "flat L' = os' @ beyond ok L"
    by blast
  from matchLevel_rest [OF m] matchLevel_length [OF m]
  obtain k where k: "os' = drop k (reach ok L)" "k \<le> length (reach ok L)" by auto
  then have "flat L' = drop k (flat L)" using f by (simp add: flat_reach_beyond [of L ok])
  then show ?thesis by blast
qed

lemma matchBook_sorted:
  assumes "matchBook ok h t L = (h', L', trs)" and "sorted_wrt cmp (map fst L)"
  shows "sorted_wrt cmp (map fst L')"
  using matchBook_keys [OF assms(1)] assms(2) by (auto simp: sorted_wrt_drop)

lemma matchBook_trades:
  assumes "matchBook ok h t L = (h', L', trs)"
  shows "map trade_price trs = map (\<lambda>x. price (h x)) (take (length trs) (flat L))"
    and "map (makerId (side (h t))) trs = map (\<lambda>x. oid (h x)) (take (length trs) (flat L))"
    and "\<forall>tr \<in> set trs. takerId (side (h t)) tr = oid (h t)"
proof -
  from matchBook_flat [OF assms] obtain os' where
    m: "matchLevel h t (reach ok L) = (h', os', trs)" by blast
  note t = take_reach [OF matchLevel_length [OF m]]
  from matchLevel_trades [OF m]
  show "map trade_price trs = map (\<lambda>x. price (h x)) (take (length trs) (flat L))"
    and "map (makerId (side (h t))) trs = map (\<lambda>x. oid (h x)) (take (length trs) (flat L))"
    and "\<forall>tr \<in> set trs. takerId (side (h t)) tr = oid (h t)"
    unfolding t by blast+
qed

lemma matchBook_popped_filled:
  assumes "matchBook ok h t L = (h', L', trs)" and "t \<notin> set (flat L)" and "distinct (flat L)"
  shows "\<forall>x \<in> set (take (length trs - 1) (flat L)). isFilled (h' x)"
proof
  fix x assume x: "x \<in> set (take (length trs - 1) (flat L))"
  from matchBook_flat [OF assms(1)] obtain os' where
    m: "matchLevel h t (reach ok L) = (h', os', trs)" by blast
  let ?F = "reach ok L"
  from assms(2,3) have tF: "t \<notin> set ?F" and dF: "distinct ?F"
    by (simp_all add: flat_reach_beyond [of L ok])
  have len: "length trs - 1 \<le> length ?F" using matchLevel_length [OF m] by simp
  from x take_reach [OF len] have xt: "x \<in> set (take (length trs - 1) ?F)" by simp
  then have xF: "x \<in> set ?F" by (rule in_set_takeD)
  from xt dF have nd: "x \<notin> set (drop (length trs - 1) ?F)"
    using set_take_disj_set_drop_if_distinct [of ?F "length trs - 1" "length trs - 1"] by auto
  have "set (drop (length trs) ?F) \<subseteq> set (drop (length trs - 1) ?F)"
    by (rule set_drop_subset_set_drop) simp
  with nd matchLevel_rest [OF m] have "x \<notin> set os'" by auto
  with matchLevel_popped_filled [OF m tF dF] xF show "isFilled (h' x)" by blast
qed

lemma matchBook_unfilled:
  assumes "matchBook ok h t L = (h', L', trs)" and "t \<notin> set (flat L)" and "distinct (flat L)"
    and "\<forall>x \<in> set (flat L). \<not> isFilled (h x)"
  shows "\<forall>x \<in> set (flat L'). \<not> isFilled (h' x)"
proof
  fix x assume x: "x \<in> set (flat L')"
  from matchBook_flat [OF assms(1)] obtain os' where
    m: "matchLevel h t (reach ok L) = (h', os', trs)" and f: "flat L' = os' @ beyond ok L"
    by blast
  let ?F = "reach ok L"
  from assms(2,3,4) have tF: "t \<notin> set ?F" and dF: "distinct ?F"
    and uF: "\<forall>x \<in> set ?F. \<not> isFilled (h x)"
    and dj: "set ?F \<inter> set (beyond ok L) = {}"
    and tB: "t \<notin> set (beyond ok L)"
    and uB: "\<forall>x \<in> set (beyond ok L). \<not> isFilled (h x)"
    by (simp_all add: flat_reach_beyond [of L ok])
  from x f consider "x \<in> set os'" | "x \<in> set (beyond ok L)" by auto
  then show "\<not> isFilled (h' x)"
  proof cases
    case 1
    with matchLevel_rest_unfilled [OF m tF dF uF] show ?thesis by blast
  next
    case 2
    with dj tB have "x \<noteq> t" "x \<notin> set ?F" by auto
    from matchLevel_frame [OF m this] uB 2 show ?thesis by simp
  qed
qed

lemma matchBook_positive:
  assumes "matchBook ok h t L = (h', L', trs)" and "t \<notin> set (flat L)" and "distinct (flat L)"
    and "\<forall>x \<in> set (flat L). \<not> isFilled (h x)"
  shows "\<forall>tr \<in> set trs. 0 < trade_quantity tr"
proof -
  from matchBook_flat [OF assms(1)] obtain os' where
    m: "matchLevel h t (reach ok L) = (h', os', trs)" by blast
  from assms(2,3,4) have "t \<notin> set (reach ok L)" "distinct (reach ok L)"
    "\<forall>x \<in> set (reach ok L). \<not> isFilled (h x)"
    by (simp_all add: flat_reach_beyond [of L ok])
  from matchLevel_positive [OF m this] show ?thesis .
qed

lemma matchBook_no_overfill:
  assumes "matchBook ok h t L = (h', L', trs)" and "t \<notin> set (flat L)"
    and "filledQuantity (h x) \<le> quantity (h x)"
  shows "filledQuantity (h' x) \<le> quantity (h' x)"
proof -
  from matchBook_flat [OF assms(1)] obtain os' where
    m: "matchLevel h t (reach ok L) = (h', os', trs)" by blast
  from assms(2) have "t \<notin> set (reach ok L)" by (simp add: flat_reach_beyond [of L ok])
  from matchLevel_no_overfill [OF m this assms(3)] show ?thesis .
qed

lemma matchBook_taker_filled:
  assumes "matchBook ok h t L = (h', L', trs)" and "t \<notin> set (flat L)"
  shows "filledQuantity (h' t) = filledQuantity (h t) + sum_list (map trade_quantity trs)"
proof -
  from matchBook_flat [OF assms(1)] obtain os' where
    m: "matchLevel h t (reach ok L) = (h', os', trs)" by blast
  from assms(2) have "t \<notin> set (reach ok L)" by (simp add: flat_reach_beyond [of L ok])
  from matchLevel_taker_filled [OF m this] show ?thesis .
qed

lemma matchBook_makers_filled:
  assumes "matchBook ok h t L = (h', L', trs)" and "t \<notin> set (flat L)" and "distinct (flat L)"
  shows "sum_list (map (\<lambda>x. filledQuantity (h' x)) (flat L))
           = sum_list (map (\<lambda>x. filledQuantity (h x)) (flat L))
             + sum_list (map trade_quantity trs)"
proof -
  from matchBook_flat [OF assms(1)] obtain os' where
    m: "matchLevel h t (reach ok L) = (h', os', trs)" by blast
  let ?F = "reach ok L" and ?B = "beyond ok L"
  have fl: "flat L = ?F @ ?B" by (rule flat_reach_beyond)
  from assms(2,3) have tF: "t \<notin> set ?F" and dF: "distinct ?F"
    and dj: "set ?F \<inter> set ?B = {}" and tB: "t \<notin> set ?B"
    unfolding fl by simp_all
  have fr: "h' x = h x" if "x \<in> set ?B" for x
  proof (rule matchLevel_frame [OF m])
    show "x \<noteq> t" using that tB by blast
    show "x \<notin> set ?F" using that dj by blast
  qed
  have b: "sum_list (map (\<lambda>x. filledQuantity (h' x)) ?B)
             = sum_list (map (\<lambda>x. filledQuantity (h x)) ?B)"
    by (rule sum_list_frame) (rule fr)
  note a = matchLevel_makers_filled [OF m tF dF]
  show ?thesis unfolding fl map_append sum_list_append a b by simp
qed

lemma ladder_ok_static:
  assumes "\<And>x. static (h' x) = static (h x)" and "ladder_ok h sd L"
  shows "ladder_ok h' sd L"
proof -
  have "price (h' x) = price (h x)" "side (h' x) = side (h x)" for x
    using static_eqD [OF assms(1) [of x]] by simp_all
  with assms(2) show ?thesis by (simp add: ladder_ok_def level_ok_def)
qed

lemma matchBook_ladder_ok:
  "matchBook ok h t L = (h', L', trs) \<Longrightarrow> ladder_ok h sd L \<Longrightarrow> ladder_ok h' sd L'"
proof (induction rule: matchBook_cases)
  case (Next h p os rest h1 trs1 h' L' trs2)
  from Next.prems have "ladder_ok h sd rest" by (simp add: ladder_ok_def)
  with ladder_ok_static [of h1 h sd rest] matchLevel_static [OF Next(3)]
  have "ladder_ok h1 sd rest" by simp
  with Next show ?case by simp
next
  case (Stay h p os rest h1 os1 trs1)
  from matchLevel_rest [OF Stay(3)] have "set os1 \<subseteq> set os"
    by (auto dest: in_set_dropD)
  with Stay.prems Stay(4) have "ladder_ok h sd ((p, os1) # rest)"
    by (auto simp: ladder_ok_def level_ok_def)
  with ladder_ok_static [of h1 h sd "(p, os1) # rest"] matchLevel_static [OF Stay(3)]
  show ?case by simp
qed simp_all


subsection \<open>addOrder, taken apart\<close>

lemma addOrder_Inr:
  assumes "addOrder b ord = Inr (b', trs)"
  shows "\<exists>h1 L'.
     matchBook (accepts ord) ((heap b)(brk b := ord)) (brk b) (opposite b (side ord)) = (h1, L', trs)
     \<and> heap b' = h1 \<and> brk b' = Suc (brk b) \<and> book_tradingPair b' = book_tradingPair b
     \<and> orders b' = (orders b)(oid ord \<mapsto> brk b)
     \<and> opposite b' (side ord) = L'
     \<and> own b' (side ord) =
         (if isFilled (h1 (brk b)) then own b (side ord)
          else level_push_back (ahead (side ord)) (price ord) (brk b) (own b (side ord)))"
proof -
  let ?h0 = "(heap b)(brk b := ord)"
  obtain h1 L' trs' where
    m: "matchBook (accepts ord) ?h0 (brk b) (opposite b (side ord)) = (h1, L', trs')"
    by (cases "matchBook (accepts ord) ?h0 (brk b) (opposite b (side ord))")
  note st = static_eqD [OF matchBook_static [OF m, of "brk b"]]
  have s: "side (h1 (brk b)) = side ord" and p: "price (h1 (brk b)) = price ord"
    using st by simp_all
  have acc: "accepts ord = (if otype ord = MARKET then (\<lambda>p. True)
                else if side ord = BUY then (\<lambda>p. p \<le> price ord)
                else (\<lambda>p. p \<ge> price ord))"
    by (simp add: accepts_def)
  show ?thesis
  proof (cases "side ord")
    case BUY
    with m have m': "matchBook (accepts ord) ?h0 (brk b) (asks b) = (h1, L', trs')"
      by (simp add: opposite_def)
    from assms BUY m' s p show ?thesis
      unfolding acc
      by (auto simp: addOrder_def matchOrder_def Let_def opposite_def own_def ahead_def
               split: if_splits)
  next
    case SELL
    with m have m': "matchBook (accepts ord) ?h0 (brk b) (bids b) = (h1, L', trs')"
      by (simp add: opposite_def)
    from assms SELL m' s p show ?thesis
      unfolding acc
      by (auto simp: addOrder_def matchOrder_def Let_def opposite_def own_def ahead_def
               split: if_splits)
  qed
qed

section \<open>Failed submissions\<close>

lemma addOrder_book_tradingPair:
  "addOrder b ord = Inr (b', trs) \<Longrightarrow> book_tradingPair b' = book_tradingPair b"
  by (auto simp: addOrder_def matchOrder_def Let_def split: if_splits prod.splits)

lemma submitOrder_any_failure:
  assumes "registry_ok e" and "submitOrder e user pr sd ty p q = (e', Inl err)"
  shows "e' = e"
  using assms
  by (auto simp: submitOrder_def getOrderBook_def registry_ok_def addOrder_def newOrder_def Let_def
           split: if_splits option.splits prod.splits sum.splits)

text \<open>
  Claim C5. A submit call with a quantity that is not positive, or of limit type with a
  price that is not positive, fails with InvalidArgument; one for a symbol that is not
  registered fails with UnknownPair. In each case the engine the call leaves behind is the
  engine it was given: the registry, every book in it and the id counter are unchanged, so
  no id has been allocated.
\<close>

theorem submitOrder_failure_leaves_engine:
  assumes "q \<le> 0 \<or> (ty = LIMIT \<and> p \<le> 0) \<or> orderBooks e pr = None"
  shows "submitOrder e user pr sd ty p q =
           (e, Inl (if q \<le> 0 \<or> (ty = LIMIT \<and> p \<le> 0) then InvalidArgument else UnknownPair))"
  using assms by (auto simp: submitOrder_def getOrderBook_def)

theorem submitOrder_failure_leaves_engine_witness:
  "submitOrder newMatchingEngine ''u1'' ''ETH/USDT'' BUY LIMIT 2000 0
      = (newMatchingEngine, Inl InvalidArgument)
   \<and> submitOrder newMatchingEngine ''u1'' ''ETH/USDT'' BUY LIMIT 0 1
      = (newMatchingEngine, Inl InvalidArgument)
   \<and> submitOrder newMatchingEngine ''u1'' ''ETH/USDT'' BUY LIMIT 2000 1
      = (newMatchingEngine, Inl UnknownPair)"
  using submitOrder_failure_leaves_engine
          [of 0 LIMIT 2000 newMatchingEngine "''ETH/USDT''" "''u1''" BUY]
        submitOrder_failure_leaves_engine
          [of 1 LIMIT 0 newMatchingEngine "''ETH/USDT''" "''u1''" BUY]
        submitOrder_failure_leaves_engine
          [of 1 LIMIT 2000 newMatchingEngine "''ETH/USDT''" "''u1''" BUY]
  by (simp add: newMatchingEngine_def)

section \<open>Order ids\<close>

lemma submitOrder_counter:
  "submitOrder e user pr sd ty p q = (e', r) \<Longrightarrow>
     orderIdCounter e' = orderIdCounter e \<or> orderIdCounter e' = orderIdCounter e + 1"
  by (auto simp: submitOrder_def generateOrderId_def split: if_splits option.splits sum.splits)

lemma submitOrder_success_counter:
  "submitOrder e user pr sd ty p q = (e', Inr trades) \<Longrightarrow>
     orderIdCounter e' = orderIdCounter e + 1"
  by (auto simp: submitOrder_def generateOrderId_def split: if_splits option.splits sum.splits)

text \<open>
  The id that \<open>generateOrderId\<close> returns is the id of the order object that a successful
  submit call creates in the book of its pair.
\<close>

lemma submitOrder_success_id:
  assumes "submitOrder e user pr sd ty p q = (e', Inr trades)"
  shows "\<exists>b b'. orderBooks e pr = Some b \<and> orderBooks e' pr = Some b'
           \<and> brk b' = Suc (brk b) \<and> oid (heap b' (brk b)) = snd (generateOrderId e)"
proof -
  from assms obtain b where b: "orderBooks e pr = Some b"
    by (auto simp: submitOrder_def getOrderBook_def split: if_splits option.splits)
  let ?ord = "newOrder (orderIdCounter e + 1) user pr sd ty p q"
  from assms b obtain b' where
    a: "addOrder b ?ord = Inr (b', trades)" and e': "orderBooks e' pr = Some b'"
    by (auto simp: submitOrder_def getOrderBook_def generateOrderId_def
             split: if_splits sum.splits)
  from addOrder_Inr [OF a] obtain h1 L' where
    m: "matchBook (accepts ?ord) ((heap b)(brk b := ?ord)) (brk b) (opposite b (side ?ord))
          = (h1, L', trades)"
    and h: "heap b' = h1" and k: "brk b' = Suc (brk b)"
    by blast
  from static_eqD(1) [OF matchBook_static [OF m, of "brk b"]] h
  have "oid (heap b' (brk b)) = orderIdCounter e + 1" by (simp add: newOrder_def)
  with b e' k show ?thesis by (simp add: generateOrderId_def)
qed

lemma engine_cancelOrder_counter:
  "orderIdCounter (fst (engine_cancelOrder e i pr)) = orderIdCounter e"
  by (auto simp: engine_cancelOrder_def getOrderBook_def split: option.splits prod.splits)

lemma addTradingPair_counter: "orderIdCounter (fst (addTradingPair e pr)) = orderIdCounter e"
  by (auto simp: addTradingPair_def)

lemma word64_succ_unat: "unat (c :: 64 word) + 1 < 2 ^ 64 \<Longrightarrow> unat (c + 1) = unat c + 1"
  by (simp add: unat_word_ariths)

lemma runCalls_ids:
  "unat (orderIdCounter e) + length (filter isSubmit cs) < 2 ^ 64 \<Longrightarrow>
   runCalls e cs = (e', ids) \<Longrightarrow>
     sorted_wrt (<) ids \<and> (\<forall>i \<in> set ids. orderIdCounter e < i)
     \<and> unat (orderIdCounter e') \<le> unat (orderIdCounter e) + length (filter isSubmit cs)
     \<and> unat (orderIdCounter e) \<le> unat (orderIdCounter e')
     \<and> (\<forall>i \<in> set ids. i \<le> orderIdCounter e')"
proof (induction e cs arbitrary: e' ids rule: runCalls.induct)
  case (1 e)
  then show ?case by simp
next
  case (2 e user pr sd ty p q cs)
  obtain e1 r where s: "submitOrder e user pr sd ty p q = (e1, r)"
    by (cases "submitOrder e user pr sd ty p q")
  from "2.prems"(1) have bound: "unat (orderIdCounter e) + 1 < 2 ^ 64" by simp
  from submitOrder_counter [OF s] bound
  have c1: "unat (orderIdCounter e1) \<le> unat (orderIdCounter e) + 1"
    and c0: "unat (orderIdCounter e) \<le> unat (orderIdCounter e1)"
    by (auto simp: word64_succ_unat)
  with "2.prems"(1) have b1: "unat (orderIdCounter e1) + length (filter isSubmit cs) < 2 ^ 64"
    by simp
  show ?case
  proof (cases r)
    case (Inl err)
    with s "2.prems"(2) have r: "runCalls e1 cs = (e', ids)" by simp
    from "2.IH"(1) [OF s [symmetric] Inl b1 r] c0 c1
    show ?thesis by (fastforce simp: word_less_nat_alt word_le_nat_alt)
  next
    case (Inr trades)
    obtain e2 ids2 where r: "runCalls e1 cs = (e2, ids2)" by (cases "runCalls e1 cs")
    from submitOrder_success_counter s Inr
    have e1: "orderIdCounter e1 = orderIdCounter e + 1" by blast
    with s Inr r "2.prems"(2) have eq: "e' = e2" "ids = orderIdCounter e1 # ids2"
      by (simp_all add: generateOrderId_def)
    from e1 bound have u: "unat (orderIdCounter e1) = unat (orderIdCounter e) + 1"
      by (simp add: word64_succ_unat)
    from "2.IH"(2) [OF s [symmetric] Inr b1 r] eq u
    show ?thesis by (fastforce simp: word_less_nat_alt word_le_nat_alt)
  qed
next
  case (3 e i pr cs)
  from "3.prems" "3.IH" [of e' ids] show ?case
    by (auto simp: engine_cancelOrder_counter)
next
  case (4 e pr cs)
  from "4.prems" "4.IH" [of e' ids] show ?case
    by (auto simp: addTradingPair_counter)
qed

lemmas engine_eval =
  runCalls.simps submitOrder_def addTradingPair_def engine_cancelOrder_def getOrderBook_def
  generateOrderId_def newMatchingEngine_def newOrderBook_def newOrder_def
  addOrder_def cancelOrder_def matchOrder_def fillFront_def executeTrade_def applyFill_def
  updateStatus_def isFilled_def getRemainingQuantity_def Let_def

text \<open>
  Claim C9, as the code has it. The ids that \<open>generateOrderId\<close> hands to the successful
  submit calls of a history are strictly increasing in call order, whatever pair each call
  names and whatever cancellations, registrations and failed submissions lie between them,
  and so pairwise distinct, as long as the 64-bit counter does not wrap: the counter value
  at the start plus the number of submit calls stays below \<open>2 ^ 64\<close>.
\<close>

theorem order_ids_increasing:
  assumes "unat (orderIdCounter e) + length (filter isSubmit cs) < 2 ^ 64"
  shows "sorted_wrt (<) (snd (runCalls e cs)) \<and> distinct (snd (runCalls e cs))"
proof -
  obtain e' ids where r: "runCalls e cs = (e', ids)" by (cases "runCalls e cs")
  from runCalls_ids [OF assms r] have s: "sorted_wrt (<) ids" by simp
  then have "distinct ids" by (simp add: strict_sorted_iff)
  with s r show ?thesis by simp
qed

theorem order_ids_increasing_witness:
  "unat (orderIdCounter newMatchingEngine) + length (filter isSubmit twoPairCalls) < 2 ^ 64
   \<and> snd (runCalls newMatchingEngine twoPairCalls) = [1, 2, 3]
   \<and> sorted_wrt (<) (snd (runCalls newMatchingEngine twoPairCalls))
   \<and> distinct (snd (runCalls newMatchingEngine twoPairCalls))"
proof -
  have b: "unat (orderIdCounter newMatchingEngine) + length (filter isSubmit twoPairCalls) < 2 ^ 64"
    by (simp add: newMatchingEngine_def twoPairCalls_def)
  have v: "snd (runCalls newMatchingEngine twoPairCalls) = [1, 2, 3]"
    by (simp add: twoPairCalls_def engine_eval)
  from b v order_ids_increasing [OF b] show ?thesis by simp
qed

text \<open>
  The claim as stated fails at the wrap-around: from a counter of \<open>2 ^ 64 - 2\<close> two
  successive successful submissions get the ids \<open>2 ^ 64 - 1\<close> and \<open>0\<close>.
\<close>

theorem order_ids_wrap_counterexample:
  "snd (runCalls engineNearWrap twoSubmits) = [18446744073709551615, 0]
   \<and> \<not> sorted_wrt (<) (snd (runCalls engineNearWrap twoSubmits))"
proof -
  have v: "snd (runCalls engineNearWrap twoSubmits) = [18446744073709551615, 0]"
    by (simp add: twoSubmits_def engineNearWrap_def engine_eval)
  show ?thesis unfolding v by simp
qed

section \<open>Filled orders, market remainders and the id directory\<close>

lemma crossedBook_eval:
  "bids crossedBook = [] \<and> asks crossedBook = [(100, [0])]
   \<and> orders crossedBook 2 = Some 1
   \<and> status (heap crossedBook 1) = FILLED
   \<and> getRemainingQuantity (heap crossedBook 1) = 0
   \<and> oid (heap crossedBook 1) = 2"
  by (simp add: crossedBook_def crossingCalls_def bookOf_def engine_eval)

text \<open>
  Claim C1, evaluated on the code. After a sell of 5 at 100 and a buy of 3 limited at 101,
  the buy order (id 2) is filled: no quantity remains and it rests in no price level. The
  id directory still maps its id to it: \<open>matchOrder\<close> erases a filled order from its level
  only, and \<open>addOrder\<close> has entered the taker in the directory before matching.
\<close>

theorem filled_order_stays_in_directory:
  "bids crossedBook = [] \<and> asks crossedBook = [(100, [0])]
   \<and> orders crossedBook 2 = Some 1
   \<and> status (heap crossedBook 1) = FILLED
   \<and> getRemainingQuantity (heap crossedBook 1) = 0"
  using crossedBook_eval by simp

text \<open>
  Claim C3, evaluated on the code. Cancelling the id of that filled order succeeds and
  turns its status from FILLED to CANCELLED.
\<close>

theorem cancel_changes_filled_order:
  "status (heap crossedBook 1) = FILLED
   \<and> snd (cancelOrder crossedBook 2) = True
   \<and> status (heap (fst (cancelOrder crossedBook 2)) 1) = CANCELLED"
  using crossedBook_eval by (simp add: cancelOrder_def Let_def)

text \<open>
  Claim C2, evaluated on the code. With one sell of 1 at 10 resting, a market buy of 4
  returns the single trade of 1 at 10, and its remainder of 3 is then appended to the bid
  ladder at the price it was submitted with (0): \<open>addOrder\<close> inserts every order that is
  not filled, whatever its type.
\<close>

theorem market_remainder_rests:
  "snd (submitOrder (fst (runCalls newMatchingEngine marketCalls))
          ''b1'' ''ETH/USDT'' BUY MARKET 0 4)
     = Inr [\<lparr>buyOrderId = 2, sellOrderId = 1, trade_price = 10, trade_quantity = 1\<rparr>]
   \<and> bids (bookOf (fst (submitOrder (fst (runCalls newMatchingEngine marketCalls))
                      ''b1'' ''ETH/USDT'' BUY MARKET 0 4)) ''ETH/USDT'') = [(0, [1])]
   \<and> otype (heap (bookOf (fst (submitOrder (fst (runCalls newMatchingEngine marketCalls))
                      ''b1'' ''ETH/USDT'' BUY MARKET 0 4)) ''ETH/USDT'') 1) = MARKET
   \<and> getRemainingQuantity
        (heap (bookOf (fst (submitOrder (fst (runCalls newMatchingEngine marketCalls))
                      ''b1'' ''ETH/USDT'' BUY MARKET 0 4)) ''ETH/USDT'') 1) = 3"
  by (simp add: marketCalls_def bookOf_def engine_eval)

section \<open>Depth queries\<close>

lemma foldl_add_sum:
  "foldl (\<lambda>total p. total + f p) (a :: real) os = a + sum_list (map f os)"
  by (induction os arbitrary: a) simp_all

lemma totalQuantity_entry: "(p, totalQuantity h os) = levelEntry h (p, os)"
  by (simp add: totalQuantity_def levelEntry_def foldl_add_sum)

lemma depth_assign_front: "\<forall>kv \<in> set d. p < fst kv \<Longrightarrow> depth_assign p q d = (p, q) # d"
  by (cases d) auto

lemma depth_assign_back: "\<forall>kv \<in> set d. fst kv < p \<Longrightarrow> depth_assign p q d = d @ [(p, q)]"
  by (induction d) auto

lemma nat_diff_step: "\<not> levels \<le> (count :: int) \<Longrightarrow> nat (levels - count) = Suc (nat (levels - (count + 1)))"
  by simp

lemma depthLoop_descending:
  "sorted_wrt (>) (map fst L) \<Longrightarrow> \<forall>lv \<in> set L. \<forall>kv \<in> set d. fst lv < fst kv \<Longrightarrow>
     depthLoop h levels count L d = rev (map (levelEntry h) (take (nat (levels - count)) L)) @ d"
proof (induction L arbitrary: count d)
  case Nil
  then show ?case by simp
next
  case (Cons lv rest)
  obtain p os where lv: "lv = (p, os)" by (cases lv)
  show ?case
  proof (cases "levels \<le> count")
    case True
    then show ?thesis by (simp add: lv)
  next
    case False
    let ?d = "(p, totalQuantity h os) # d"
    from Cons.prems lv have a: "depth_assign p (totalQuantity h os) d = ?d"
      by (intro depth_assign_front) simp
    from Cons.prems lv have "sorted_wrt (>) (map fst rest)"
      and "\<forall>lv \<in> set rest. \<forall>kv \<in> set ?d. fst lv < fst kv"
      by auto
    from Cons.IH [OF this, of "count + 1"] a False
    show ?thesis
      by (simp add: lv nat_diff_step [OF False] totalQuantity_entry del: depth_assign.simps)
  qed
qed

lemma depthLoop_ascending:
  "sorted_wrt (<) (map fst L) \<Longrightarrow> \<forall>lv \<in> set L. \<forall>kv \<in> set d. fst kv < fst lv \<Longrightarrow>
     depthLoop h levels count L d = d @ map (levelEntry h) (take (nat (levels - count)) L)"
proof (induction L arbitrary: count d)
  case Nil
  then show ?case by simp
next
  case (Cons lv rest)
  obtain p os where lv: "lv = (p, os)" by (cases lv)
  show ?case
  proof (cases "levels \<le> count")
    case True
    then show ?thesis by (simp add: lv)
  next
    case False
    let ?d = "d @ [(p, totalQuantity h os)]"
    from Cons.prems lv have a: "depth_assign p (totalQuantity h os) d = ?d"
      by (intro depth_assign_back) simp
    from Cons.prems lv have "sorted_wrt (<) (map fst rest)"
      and "\<forall>lv \<in> set rest. \<forall>kv \<in> set ?d. fst kv < fst lv"
      by auto
    from Cons.IH [OF this, of "count + 1"] a False
    show ?thesis
      by (simp add: lv nat_diff_step [OF False] totalQuantity_entry del: depth_assign.simps)
  qed
qed

lemma levelEntry_keys: "map fst (map (levelEntry h) L) = map fst L"
  by (simp add: levelEntry_def)

text \<open>
  Claim C4, as the code has it. A depth query with argument \<open>k\<close> covers the first \<open>k\<close>
  price levels of its ladder, that is the \<open>k\<close> best ones (all of them if the book is
  shallower, none if \<open>k\<close> is not positive), each as the pair of its price and the total
  remaining quantity of its orders. The result is a map keyed by price, so both queries
  list their entries by ascending price: best first for the asks, but in the reverse of
  best-first order for the bids.
\<close>

theorem depth_queries:
  assumes "sorted_wrt (>) (map fst (bids b))" and "sorted_wrt (<) (map fst (asks b))"
  shows "getBidDepth b k = rev (map (levelEntry (heap b)) (take (nat k) (bids b)))
         \<and> getAskDepth b k = map (levelEntry (heap b)) (take (nat k) (asks b))
         \<and> sorted_wrt (<) (map fst (getBidDepth b k))
         \<and> sorted_wrt (<) (map fst (getAskDepth b k))"
proof -
  have bd: "getBidDepth b k = rev (map (levelEntry (heap b)) (take (nat k) (bids b)))"
    using depthLoop_descending [OF assms(1), of "[]" "heap b" k 0]
    by (simp add: getBidDepth_def)
  have ad: "getAskDepth b k = map (levelEntry (heap b)) (take (nat k) (asks b))"
    using depthLoop_ascending [OF assms(2), of "[]" "heap b" k 0]
    by (simp add: getAskDepth_def)
  have "sorted_wrt (>) (take (nat k) (map fst (bids b)))"
    using assms(1) by (rule sorted_wrt_take)
  then have sb: "sorted_wrt (<) (map fst (getBidDepth b k))"
    unfolding bd rev_map [symmetric] levelEntry_keys
    by (simp add: sorted_wrt_rev take_map)
  have "sorted_wrt (<) (take (nat k) (map fst (asks b)))"
    using assms(2) by (rule sorted_wrt_take)
  then have sa: "sorted_wrt (<) (map fst (getAskDepth b k))"
    unfolding ad levelEntry_keys by (simp add: take_map)
  from bd ad sb sa show ?thesis by simp
qed

lemma populatedBook_eval:
  "bids populatedBook = [(2000, [0]), (1995, [2]), (1990, [1])]
   \<and> asks populatedBook = [(2010, [3]), (2020, [4])]
   \<and> getBidDepth populatedBook 10 = [(1990, 2), (1995, 1), (2000, 3 / 2)]
   \<and> getAskDepth populatedBook 10 = [(2010, 1), (2020, 5 / 2)]
   \<and> getBidDepth populatedBook 2 = [(1995, 1), (2000, 3 / 2)]"
  by (simp add: populatedBook_def populateCalls_def bookOf_def engine_eval getBidDepth_def
                getAskDepth_def totalQuantity_def)

theorem depth_queries_witness:
  "sorted_wrt (>) (map fst (bids populatedBook)) \<and> sorted_wrt (<) (map fst (asks populatedBook))
   \<and> getBidDepth populatedBook 2 = [(1995, 1), (2000, 3 / 2)]
   \<and> getBidDepth populatedBook 2
        = rev (map (levelEntry (heap populatedBook)) (take (nat 2) (bids populatedBook)))
   \<and> getAskDepth populatedBook 2
        = map (levelEntry (heap populatedBook)) (take (nat 2) (asks populatedBook))
   \<and> sorted_wrt (<) (map fst (getBidDepth populatedBook 2))"
proof -
  have s: "sorted_wrt (>) (map fst (bids populatedBook))"
          "sorted_wrt (<) (map fst (asks populatedBook))"
    using populatedBook_eval by simp_all
  have v: "getBidDepth populatedBook 2 = [(1995, 1), (2000, 3 / 2)]"
    using populatedBook_eval by blast
  note t = depth_queries [OF s, of 2]
  show ?thesis
    by (intro conjI) (rule s v t [THEN conjunct1] t [THEN conjunct2, THEN conjunct1]
                           t [THEN conjunct2, THEN conjunct2, THEN conjunct1])+
qed

text \<open>
  The claim as stated fails for the bid side: with bids at 2000, 1995 and 1990 the bid
  depth lists 1990 first and the best bid, 2000, last.
\<close>

theorem bid_depth_counterexample:
  "getBidDepth populatedBook 10 = [(1990, 2), (1995, 1), (2000, 3 / 2)]
   \<and> \<not> sorted_wrt (>) (map fst (getBidDepth populatedBook 10))"
  using populatedBook_eval by simp

end
